theory Spec2Isabelle
  imports Main "HOL-Library.Word"
begin

section \<open>The job queue: data model\<close>

text \<open>
  The development follows the most recent revision of the controller in the sources (the
  one with \<open>closing\<close>, \<open>CloseTimeout\<close>, \<open>hasQuit\<close> and \<open>CloseForced\<close>), the
  waiter buffer of \<open>stack.go\<close> and the HTTP handler. The older revision \<open>jobqueue.go\<close>
  has the same arrival, completion and timeout cases without the test of \<open>closing\<close>
  and without the termination check after a completion.

  Go's \<open>int\<close> and \<open>time.Duration\<close> are 64-bit signed integers: they are 64-bit words
  here, compared through their signed value, and \<open>busy++\<close>, \<open>busy--\<close> wrap around as
  they do in Go. The length of the linked list is the length of a HOL list.
\<close>

type_synonym go_int = "64 word"

datatype error = ErrStackFull | ErrTimeout | ErrClosed

text \<open>
  A \<open>job\<close> is identified by its \<open>notify\<close> channel (a channel identity). The field
  \<open>timeout\<close> says whether the timer channel is non-nil, which \<open>newJob\<close> decides from
  \<open>Options.Timeout\<close>. The back pointer \<open>entry\<close> of the source is the position of the
  job in the list of the stack.
\<close>

record job =
  notify :: nat
  timeout :: bool

record Options =
  MaxConcurrency :: go_int
  MaxStackSize :: go_int
  Timeout :: go_int
  CloseTimeout :: go_int

record Status =
  ActiveJobs :: go_int
  QueuedJobs :: int
  Closing :: bool
  Closed :: bool

text \<open>
  The buffer: \<open>list\<close> is the \<open>container/list\<close> of the source, front first. \<open>push\<close> is
  \<open>PushFront\<close>, so the front is the most recent job and the back the oldest one.
\<close>

record stack =
  cap :: go_int
  list :: "job list"

definition newStack :: "go_int \<Rightarrow> stack" where
  "newStack c = \<lparr>cap = c, list = []\<rparr>"

definition empty :: "stack \<Rightarrow> bool" where
  "empty s = (length (list s) = 0)"

definition full :: "stack \<Rightarrow> bool" where
  "full s = (0 <s cap s \<and> int (length (list s)) = sint (cap s))"

definition bottom :: "stack \<Rightarrow> job option" where
  "bottom s = (if length (list s) = 0 then None else Some (last (list s)))"

definition push :: "stack \<Rightarrow> job \<Rightarrow> stack" where
  "push s j = s\<lparr>list := j # list s\<rparr>"

text \<open>
  \<open>pop\<close> and \<open>shift\<close> call \<open>removeEntry\<close> on \<open>Front()\<close> and \<open>Back()\<close>, which are nil
  on an empty list; \<open>list.Remove(nil)\<close> then dereferences nil. This panic is the value
  \<open>None\<close>.
\<close>

definition pop :: "stack \<Rightarrow> (job \<times> stack) option" where
  "pop s = (case list s of [] \<Rightarrow> None | j # js \<Rightarrow> Some (j, s\<lparr>list := js\<rparr>))"

definition shift :: "stack \<Rightarrow> (job \<times> stack) option" where
  "shift s = (if list s = [] then None
              else Some (last (list s), s\<lparr>list := butlast (list s)\<rparr>))"

section \<open>The controller\<close>

text \<open>
  \<open>Stack\<close> holds the state that the goroutine \<open>run\<close> owns. \<open>hasQuit\<close> says that the
  channel \<open>hasQuit\<close> is closed; every \<open>return\<close> of \<open>run\<close> comes right after
  \<open>close(s.hasQuit)\<close>, so it also says that the loop has returned. \<open>closeTimeout\<close> is
  the local variable of \<open>run\<close>: whether the grace timer channel is non-nil.
  \<open>sent\<close> records every value sent on a \<open>notify\<close> channel, oldest first; the value
  \<open>None\<close> is Go's nil error, which lets the job run.
\<close>

record Stack =
  options :: Options
  stack :: stack
  closing :: bool
  busy :: go_int
  hasQuit :: bool
  closeTimeout :: bool
  sent :: "(nat \<times> error option) list"

definition With :: "Options \<Rightarrow> Stack" where
  "With opts =
     (let opts1 = (if MaxConcurrency opts \<le>s 0 then opts\<lparr>MaxConcurrency := 1\<rparr> else opts)
      in \<lparr>options = opts1, stack = newStack (MaxStackSize opts1), closing = False,
          busy = 0, hasQuit = False, closeTimeout = False, sent = []\<rparr>)"

definition New :: Stack where
  "New = With \<lparr>MaxConcurrency = 0, MaxStackSize = 0, Timeout = 0, CloseTimeout = 0\<rparr>"

text \<open>\<open>j.notify <- v\<close>: the caller of \<open>Wait\<close> is receiving on the channel.\<close>

definition send :: "job \<Rightarrow> error option \<Rightarrow> Stack \<Rightarrow> Stack" where
  "send j v s = s\<lparr>sent := sent s @ [(notify j, v)]\<rparr>"

function rejectQueued :: "Stack \<Rightarrow> Stack option" where
  "rejectQueued s =
     (if \<not> empty (stack s)
      then (case shift (stack s) of
              None \<Rightarrow> None
            | Some (j, st) \<Rightarrow> rejectQueued (send j (Some ErrClosed) (s\<lparr>stack := st\<rparr>)))
      else Some s)"
  by pat_completeness auto
termination
  by (relation "measure (\<lambda>s. length (list (stack s)))")
     (auto simp: send_def shift_def empty_def split: if_splits)

declare rejectQueued.simps [simp del]

text \<open>The cases of the \<open>select\<close> statement of \<open>run\<close>.\<close>

datatype event = Req job | Done | TimeoutEv | StatusReq | Quit bool | CloseTimeoutEv

text \<open>
  The block \<open>if s.stack.full() { oldest := s.stack.shift(); oldest.notify <- ErrStackFull }\<close>
  of the arrival case, which runs before \<open>s.stack.push(j)\<close>.
\<close>

definition displace :: "Stack \<Rightarrow> Stack option" where
  "displace s =
     (if full (stack s)
      then (case shift (stack s) of
              None \<Rightarrow> None
            | Some (oldest, st) \<Rightarrow> Some (send oldest (Some ErrStackFull) (s\<lparr>stack := st\<rparr>)))
      else Some s)"

text \<open>The reply of the status case.\<close>

definition statusReply :: "Stack \<Rightarrow> Status" where
  "statusReply s = \<lparr>ActiveJobs = busy s, QueuedJobs = int (length (list (stack s))),
                    Closing = closing s, Closed = False\<rparr>"

text \<open>
  One iteration of the loop of \<open>run\<close>, for the case of the \<open>select\<close> that fires. The
  result is \<open>None\<close> when the case cannot fire (its channel is nil) or when the body
  panics; \<open>ready\<close> below tells the two apart.
\<close>

fun run_select :: "Stack \<Rightarrow> event \<Rightarrow> Stack option" where
  "run_select s (Req j) =
     (if closing s then Some (send j (Some ErrClosed) s)
      else if busy s <s MaxConcurrency (options s)
      then Some (send j None (s\<lparr>busy := busy s + 1\<rparr>))
      else (case displace s of
              None \<Rightarrow> None
            | Some s1 \<Rightarrow> Some (s1\<lparr>stack := push (stack s1) j\<rparr>)))"
| "run_select s Done =
     (let s1 = s\<lparr>busy := busy s - 1\<rparr> in
      case (if \<not> empty (stack s1)
            then (let s2 = s1\<lparr>busy := busy s1 + 1\<rparr> in
                  case pop (stack s2) of
                    None \<Rightarrow> None
                  | Some (j, st) \<Rightarrow> Some (send j None (s2\<lparr>stack := st\<rparr>)))
            else Some s1) of
        None \<Rightarrow> None
      | Some s3 \<Rightarrow>
          if closing s3 \<and> busy s3 = 0 \<and> empty (stack s3)
          then Some (s3\<lparr>hasQuit := True\<rparr>)
          else Some s3)"
| "run_select s TimeoutEv =
     (case bottom (stack s) of
        None \<Rightarrow> None
      | Some oldest \<Rightarrow>
          if \<not> timeout oldest then None
          else (let s1 = send oldest (Some ErrTimeout) s in
                case shift (stack s1) of
                  None \<Rightarrow> None
                | Some (_, st) \<Rightarrow> Some (s1\<lparr>stack := st\<rparr>)))"
| "run_select s StatusReq = Some s"
| "run_select s (Quit forced) =
     (if forced
      then (case rejectQueued s of
              None \<Rightarrow> None
            | Some s1 \<Rightarrow> Some (s1\<lparr>hasQuit := True\<rparr>))
      else (let s1 = s\<lparr>closing := True\<rparr> in
            if busy s1 = 0 \<and> empty (stack s1) then Some (s1\<lparr>hasQuit := True\<rparr>)
            else if 0 <s CloseTimeout (options s1) then Some (s1\<lparr>closeTimeout := True\<rparr>)
            else Some s1))"
| "run_select s CloseTimeoutEv =
     (if \<not> closeTimeout s then None
      else (case rejectQueued s of
              None \<Rightarrow> None
            | Some s1 \<Rightarrow> Some (s1\<lparr>hasQuit := True\<rparr>)))"

text \<open>
  Which cases of the \<open>select\<close> can fire: the waiter timer only when the buffer has
  an oldest job whose timer channel is non-nil, the grace timer only once it is armed.
\<close>

fun ready :: "Stack \<Rightarrow> event \<Rightarrow> bool" where
  "ready s TimeoutEv = (case bottom (stack s) of None \<Rightarrow> False | Some oldest \<Rightarrow> timeout oldest)"
| "ready s CloseTimeoutEv = closeTimeout s"
| "ready s _ = True"

section \<open>The callers' side\<close>

definition newJob :: "Stack \<Rightarrow> nat \<Rightarrow> job" where
  "newJob s c = \<lparr>notify = c, timeout = (0 <s Timeout (options s))\<rparr>"

text \<open>
  \<open>Wait\<close> creates a job on a new channel \<open>c\<close> and selects between handing it to the
  loop and the closed \<open>hasQuit\<close>. A loop that has returned receives nothing, and
  \<open>hasQuit\<close> is closed exactly then, so one branch is ready. After the hand-over
  \<open>Wait\<close> receives from \<open>j.notify\<close>: its error is the value that \<open>sent\<close> records for
  \<open>c\<close>.
\<close>

datatype waiting = Returns error | Receives

definition Wait :: "Stack \<Rightarrow> nat \<Rightarrow> (waiting \<times> Stack) option" where
  "Wait s c =
     (let j = newJob s c in
      if hasQuit s then Some (Returns ErrClosed, s)
      else map_option (\<lambda>s1. (Receives, s1)) (run_select s (Req j)))"

text \<open>The function \<open>done\<close> that \<open>Wait\<close> returns when the job was let run.\<close>

definition done_fn :: "Stack \<Rightarrow> Stack option" where
  "done_fn s = (if hasQuit s then Some s else run_select s Done)"

definition Status :: "Stack \<Rightarrow> (Status \<times> Stack) option" where
  "Status s =
     (if hasQuit s
      then Some (\<lparr>ActiveJobs = 0, QueuedJobs = 0, Closing = False, Closed = True\<rparr>, s)
      else map_option (\<lambda>s1. (statusReply s, s1)) (run_select s StatusReq))"

definition Close :: "Stack \<Rightarrow> Stack option" where
  "Close s = (if hasQuit s then Some s else run_select s (Quit False))"

definition CloseForced :: "Stack \<Rightarrow> Stack option" where
  "CloseForced s = (if hasQuit s then Some s else run_select s (Quit True))"

text \<open>
  What the callers and the timers do to the controller, one call after another. A timer
  case cannot fire in a loop that has returned.
\<close>

datatype call =
  CallWait nat | CallDone | CallStatus | CallClose | CallCloseForced
  | TimerTimeout | TimerCloseTimeout

fun api :: "Stack \<Rightarrow> call \<Rightarrow> Stack option" where
  "api s (CallWait c) = map_option snd (Wait s c)"
| "api s CallDone = done_fn s"
| "api s CallStatus = map_option snd (Status s)"
| "api s CallClose = Close s"
| "api s CallCloseForced = CloseForced s"
| "api s TimerTimeout = (if hasQuit s then None else run_select s TimeoutEv)"
| "api s TimerCloseTimeout = (if hasQuit s then None else run_select s CloseTimeoutEv)"

fun calls :: "Stack \<Rightarrow> call list \<Rightarrow> Stack option" where
  "calls s [] = Some s"
| "calls s (c # cs) = (case api s c of None \<Rightarrow> None | Some s1 \<Rightarrow> calls s1 cs)"

text \<open>The case of the \<open>select\<close> that a call or a timer makes fire in a running loop.\<close>

fun event_of :: "Stack \<Rightarrow> call \<Rightarrow> event" where
  "event_of s (CallWait c) = Req (newJob s c)"
| "event_of s CallDone = Done"
| "event_of s CallStatus = StatusReq"
| "event_of s CallClose = Quit False"
| "event_of s CallCloseForced = Quit True"
| "event_of s TimerTimeout = TimeoutEv"
| "event_of s TimerCloseTimeout = CloseTimeoutEv"

subsection \<open>What the callers observe\<close>

text \<open>The values that the job of channel \<open>c\<close> has been sent so far.\<close>

definition sends :: "Stack \<Rightarrow> nat \<Rightarrow> error option list" where
  "sends s c = map snd (filter (\<lambda>p. fst p = c) (sent s))"

text \<open>The channels of the jobs that the calls of \<open>Wait\<close> create, in order.\<close>

fun created :: "call list \<Rightarrow> nat list" where
  "created [] = []"
| "created (CallWait c # cs) = c # created cs"
| "created (_ # cs) = created cs"

text \<open>
  The channels of the jobs that the loop receives: those of the calls of \<open>Wait\<close> made
  while the loop runs.
\<close>

fun arrivals :: "Stack \<Rightarrow> call list \<Rightarrow> nat list" where
  "arrivals s [] = []"
| "arrivals s (c # cs) =
     (case api s c of
        None \<Rightarrow> []
      | Some s1 \<Rightarrow>
          (case c of
             CallWait ch \<Rightarrow> if hasQuit s then arrivals s1 cs else ch # arrivals s1 cs
           | _ \<Rightarrow> arrivals s1 cs))"

text \<open>
  The number of \<open>done\<close> functions handed out: \<open>Wait\<close> returns one that releases a slot
  exactly when it received nil.
\<close>

definition admitted :: "Stack \<Rightarrow> nat" where
  "admitted s = length (filter (\<lambda>p. snd p = None) (sent s))"

text \<open>
  Every \<open>done\<close> function is called at most once: at each call of one, fewer have been
  called (\<open>r\<close>) than were handed out.
\<close>

fun released_once :: "nat \<Rightarrow> Stack \<Rightarrow> call list \<Rightarrow> bool" where
  "released_once r s [] = True"
| "released_once r s (c # cs) =
     (case api s c of
        None \<Rightarrow> False
      | Some s1 \<Rightarrow>
          if c = CallDone then r < admitted s \<and> released_once (Suc r) s1 cs
          else released_once r s1 cs)"

text \<open>Neither a forced close nor the grace timer occurs among the calls.\<close>

fun graceful :: "call list \<Rightarrow> bool" where
  "graceful [] = True"
| "graceful (CallCloseForced # cs) = False"
| "graceful (TimerCloseTimeout # cs) = False"
| "graceful (_ # cs) = graceful cs"

section \<open>Reconfiguring a running controller\<close>

text \<open>
  The tests of the repository call \<open>q.Reconfigure(Options)\<close>, but neither the method nor
  the case of the loop that serves it is in the sources. The definitions of this section
  are modelled from the specification; the tables of \<open>TestReconfigure\<close> are those of the
  test file.
\<close>

text \<open>
  Modelled from the spec: the trimming loop of the missing \<open>Reconfigure\<close> ("trim buffer to
  new max_stack_size by repeated drop_bottom() + ERR_STACK_FULL notifications"; a capacity
  of zero means unbounded).
\<close>

function trim :: "Stack \<Rightarrow> Stack option" where
  "trim s =
     (if 0 <s cap (stack s) \<and> sint (cap (stack s)) < int (length (list (stack s)))
      then (case shift (stack s) of
              None \<Rightarrow> None
            | Some (j, st) \<Rightarrow> trim (send j (Some ErrStackFull) (s\<lparr>stack := st\<rparr>)))
      else Some s)"
  by pat_completeness auto
termination
  by (relation "measure (\<lambda>s. length (list (stack s)))")
     (auto simp: send_def shift_def split: if_splits)

declare trim.simps [simp del]

text \<open>
  Modelled from the spec: the admitting loop of the missing \<open>Reconfigure\<close> ("while active <
  max_concurrency and buffer non-empty, pop_top() and admit").
\<close>

function admit :: "Stack \<Rightarrow> Stack option" where
  "admit s =
     (if busy s <s MaxConcurrency (options s) \<and> \<not> empty (stack s)
      then (case pop (stack s) of
              None \<Rightarrow> None
            | Some (j, st) \<Rightarrow> admit (send j None (s\<lparr>busy := busy s + 1, stack := st\<rparr>)))
      else Some s)"
  by pat_completeness auto
termination
  by (relation "measure (\<lambda>s. length (list (stack s)))")
     (auto simp: send_def pop_def split: list.splits)

declare admit.simps [simp del]

text \<open>
  Modelled from the spec: step 2 of the missing \<open>Reconfigure\<close> ("normalize
  new_options.max_concurrency (<= 0 becomes 1)").
\<close>

definition normalize :: "Options \<Rightarrow> Options" where
  "normalize opts = (if MaxConcurrency opts \<le>s 0 then opts\<lparr>MaxConcurrency := 1\<rparr> else opts)"

text \<open>
  Modelled from the spec: step 3 of the missing \<open>Reconfigure\<close> ("replace options with
  new_options"); the capacity of the buffer is the new \<open>MaxStackSize\<close>.
\<close>

definition replace_options :: "Stack \<Rightarrow> Options \<Rightarrow> Stack" where
  "replace_options s opts =
     s\<lparr>options := normalize opts, stack := (stack s)\<lparr>cap := MaxStackSize (normalize opts)\<rparr>\<rparr>"

text \<open>
  Modelled from the spec: the missing \<open>Reconfigure\<close>, its steps in the order of the
  specification: \<open>ErrClosed\<close> after termination; else normalize, replace the options,
  trim the buffer, admit from the top, return success.
\<close>

definition Reconfigure :: "Stack \<Rightarrow> Options \<Rightarrow> (error option \<times> Stack) option" where
  "Reconfigure s opts =
     (if hasQuit s then Some (Some ErrClosed, s)
      else (case trim (replace_options s opts) of
              None \<Rightarrow> None
            | Some s2 \<Rightarrow> (case admit s2 of None \<Rightarrow> None | Some s3 \<Rightarrow> Some (None, s3))))"

subsection \<open>\<open>TestReconfigure\<close>\<close>

text \<open>
  The table of the subtest "apply changes": the options passed to \<open>Reconfigure\<close> and the
  \<open>Status\<close> expected afterwards. Each row starts from \<open>With(Options{MaxConcurrency: 2,
  MaxStackSize: 2})\<close> with four calls of \<open>Wait\<close>, once \<open>Status\<close> reports two active and two
  queued jobs.
\<close>

definition test_options :: "go_int \<Rightarrow> go_int \<Rightarrow> Options" where
  "test_options c n = \<lparr>MaxConcurrency = c, MaxStackSize = n, Timeout = 0, CloseTimeout = 0\<rparr>"

definition test_status :: "go_int \<Rightarrow> int \<Rightarrow> Status" where
  "test_status a q = \<lparr>ActiveJobs = a, QueuedJobs = q, Closing = False, Closed = False\<rparr>"

definition TestReconfigure_rows :: "(Options \<times> Status) list" where
  "TestReconfigure_rows =
     [(test_options 2 2, test_status 2 2),
      (test_options 2 3, test_status 2 2),
      (test_options 2 1, test_status 2 1),
      (test_options 3 2, test_status 3 1),
      (test_options 3 3, test_status 3 1),
      (test_options 3 1, test_status 3 1),
      (test_options 1 2, test_status 2 2),
      (test_options 1 3, test_status 2 2),
      (test_options 1 1, test_status 2 1)]"

definition TestReconfigure_queue :: "Stack option" where
  "TestReconfigure_queue =
     calls (With (test_options 2 2)) [CallWait 0, CallWait 1, CallWait 2, CallWait 3]"

definition TestReconfigure_passes ::
  "(Stack \<Rightarrow> Options \<Rightarrow> (error option \<times> Stack) option) \<Rightarrow> Options \<times> Status \<Rightarrow> bool" where
  "TestReconfigure_passes reconfigure row =
     (case TestReconfigure_queue of
        None \<Rightarrow> False
      | Some q \<Rightarrow>
          map_option fst (Status q) = Some (test_status 2 2)
          \<and> (case reconfigure q (fst row) of
               Some (None, q1) \<Rightarrow> map_option fst (Status q1) = Some (snd row)
             | _ \<Rightarrow> False))"

text \<open>
  The subtest "use default concurrency": after \<open>Reconfigure\<close> with \<open>MaxConcurrency: 0\<close>
  and two calls of \<open>Wait\<close>, one job is active and one queued. The subtest "reconfigure
  after closed": \<open>Reconfigure\<close> returns \<open>ErrClosed\<close> once \<open>hasQuit\<close> is closed.
\<close>

definition TestReconfigure_default ::
  "(Stack \<Rightarrow> Options \<Rightarrow> (error option \<times> Stack) option) \<Rightarrow> bool" where
  "TestReconfigure_default reconfigure =
     (case reconfigure (With (test_options 2 2)) (test_options 0 2) of
        Some (_, q) \<Rightarrow>
          (case calls q [CallWait 0, CallWait 1] of
             None \<Rightarrow> False
           | Some q1 \<Rightarrow> map_option fst (Status q1) = Some (test_status 1 1))
      | None \<Rightarrow> False)"

definition TestReconfigure_closed ::
  "(Stack \<Rightarrow> Options \<Rightarrow> (error option \<times> Stack) option) \<Rightarrow> bool" where
  "TestReconfigure_closed reconfigure =
     (case Close New of
        None \<Rightarrow> False
      | Some q \<Rightarrow> hasQuit q \<and> map_option fst (reconfigure q (test_options 0 0)) = Some (Some ErrClosed))"

section \<open>The HTTP handler\<close>

text \<open>
  A \<open>ResponseWriter\<close> is an interface of \<open>net/http\<close>; what the handler does to it is the
  sequence of status codes it passes to \<open>WriteHeader\<close>, oldest first. A request is of any
  type \<open>'r\<close>.
\<close>

type_synonym ResponseWriter = "go_int list"

definition WriteHeader :: "ResponseWriter \<Rightarrow> go_int \<Rightarrow> ResponseWriter" where
  "WriteHeader w code = w @ [code]"

definition StatusNotFound :: go_int where
  "StatusNotFound = 404"

definition StatusServiceUnavailable :: go_int where
  "StatusServiceUnavailable = 503"

record HTTPOptions = Options +
  StackFullStatusCode :: go_int
  TimeoutStatusCode :: go_int

type_synonym 'r http_handler = "ResponseWriter \<Rightarrow> 'r \<Rightarrow> ResponseWriter"

text \<open>The fields \<open>options\<close> and \<open>stack\<close> of \<open>Handler\<close> are \<open>hoptions\<close> and \<open>hstack\<close>.\<close>

record 'r Handler =
  hoptions :: HTTPOptions
  handler :: "'r http_handler"
  hstack :: Stack

definition nop404 :: "'r http_handler" where
  "nop404 w r = WriteHeader w StatusNotFound"

text \<open>The handler argument of \<open>NewHandler\<close> may be nil, which is \<open>None\<close>.\<close>

definition NewHandler :: "HTTPOptions \<Rightarrow> 'r http_handler option \<Rightarrow> 'r Handler" where
  "NewHandler opts h =
     (let s = With (Options.truncate opts);
          h1 = (case h of None \<Rightarrow> nop404 | Some f \<Rightarrow> f);
          opts1 = (if StackFullStatusCode opts = 0
                   then opts\<lparr>StackFullStatusCode := StatusServiceUnavailable\<rparr> else opts);
          opts2 = (if TimeoutStatusCode opts1 = 0
                   then opts1\<lparr>TimeoutStatusCode := StatusServiceUnavailable\<rparr> else opts1)
      in \<lparr>hoptions = opts2, handler = h1, hstack = s\<rparr>)"

text \<open>
  \<open>Do\<close> calls \<open>Wait\<close> and runs the job when the error is nil. The error \<open>err\<close> that
  \<open>Wait\<close> returns is \<open>ErrClosed\<close> from its \<open>hasQuit\<close> branch or the value that the loop
  sends to the job, which later events decide; it is an argument here. The call of
  \<open>done\<close> after the job acts on the controller only.
\<close>

definition Do :: "error option \<Rightarrow> ('w \<Rightarrow> 'w) \<Rightarrow> 'w \<Rightarrow> error option \<times> 'w" where
  "Do err job w = (case err of Some e \<Rightarrow> (Some e, w) | None \<Rightarrow> (None, job w))"

definition ServeHTTP ::
  "'r Handler \<Rightarrow> error option \<Rightarrow> ResponseWriter \<Rightarrow> 'r \<Rightarrow> ResponseWriter" where
  "ServeHTTP h err w r =
     (case Do err (\<lambda>w1. handler h w1 r) w of
        (Some ErrStackFull, w1) \<Rightarrow> WriteHeader w1 (StackFullStatusCode (hoptions h))
      | (Some ErrTimeout, w1) \<Rightarrow> WriteHeader w1 (TimeoutStatusCode (hoptions h))
      | (_, w1) \<Rightarrow> w1)"

section \<open>Invariants of the controller\<close>

text \<open>
  \<open>bounded\<close>: the capacity bound of the buffer, which binds when the capacity is
  positive.
\<close>

definition bounded :: "Stack \<Rightarrow> bool" where
  "bounded s = (\<not> 0 <s cap (stack s) \<or> int (length (list (stack s))) \<le> sint (cap (stack s)))"

text \<open>
  \<open>slots\<close>: the concurrency limit is positive, no slot is free while a job is queued, and
  a closing controller with nothing left to do has quit.
\<close>

definition slots :: "Stack \<Rightarrow> bool" where
  "slots s = (0 <s MaxConcurrency (options s)
     \<and> (list (stack s) = [] \<or> \<not> busy s <s MaxConcurrency (options s))
     \<and> (\<not> closing s \<or> busy s \<noteq> 0 \<or> list (stack s) \<noteq> [] \<or> hasQuit s))"

text \<open>\<open>drained\<close>: a controller that has quit was closing, with no job running or queued.\<close>

definition drained :: "Stack \<Rightarrow> bool" where
  "drained s = (\<not> hasQuit s \<or> (closing s \<and> busy s = 0 \<and> list (stack s) = []))"

text \<open>
  \<open>accounted\<close>: while the loop runs, \<open>busy\<close> is the number of \<open>done\<close> functions
  handed out and not yet called (\<open>r\<close> of them were called); it stays within the limit,
  and it is at the limit while a job is queued.
\<close>

definition accounted :: "nat \<Rightarrow> Stack \<Rightarrow> bool" where
  "accounted r s = ((hasQuit s \<or> sint (busy s) + int r = int (admitted s))
     \<and> 0 \<le> sint (busy s) \<and> sint (busy s) \<le> sint (MaxConcurrency (options s))
     \<and> (list (stack s) = [] \<or> busy s = MaxConcurrency (options s)))"

text \<open>
  \<open>delivered\<close>: of the jobs the loop has received (their channels are \<open>A\<close>), the queued
  ones are distinct, and the job of channel \<open>c\<close> has been sent one value if it was
  received and is no longer queued, and none otherwise; no job is queued once the loop has
  returned.
\<close>

definition delivered :: "nat set \<Rightarrow> nat \<Rightarrow> Stack \<Rightarrow> bool" where
  "delivered A c s =
     (distinct (map notify (list (stack s))) \<and> notify ` set (list (stack s)) \<subseteq> A
      \<and> length (sends s c) = (if c \<in> A \<and> c \<notin> notify ` set (list (stack s)) then 1 else 0)
      \<and> (\<not> hasQuit s \<or> list (stack s) = []))"

section \<open>Example states\<close>

text \<open>
  States of a controller with one slot, a buffer of two and both timers configured:
  \<open>ex_state\<close> takes the queued jobs, \<open>closing\<close>, \<open>busy\<close>, \<open>hasQuit\<close>,
  \<open>closeTimeout\<close> and the values sent.
\<close>

definition ex_opts :: Options where
  "ex_opts = \<lparr>MaxConcurrency = 1, MaxStackSize = 2, Timeout = 5, CloseTimeout = 7\<rparr>"

definition ex_job :: "nat \<Rightarrow> job" where
  "ex_job c = \<lparr>notify = c, timeout = True\<rparr>"

definition ex_state :: "job list \<Rightarrow> bool \<Rightarrow> go_int \<Rightarrow> bool \<Rightarrow> bool \<Rightarrow> (nat \<times> error option) list \<Rightarrow> Stack" where
  "ex_state js cl b q ct xs =
     \<lparr>options = ex_opts, stack = \<lparr>cap = 2, list = js\<rparr>, closing = cl, busy = b,
      hasQuit = q, closeTimeout = ct, sent = xs\<rparr>"

definition ex_full :: Stack where
  "ex_full = ex_state [ex_job 3, ex_job 2] False 1 False False [(0, None), (1, Some ErrStackFull)]"

definition ex_quit :: Stack where
  "ex_quit = ex_state [] True 0 True True
               [(0, None), (1, Some ErrStackFull), (3, None), (2, Some ErrTimeout)]"

section \<open>The buffer and the cases of the loop\<close>

lemma full_nonempty: "full st \<Longrightarrow> list st \<noteq> []"
  by (auto simp: full_def word_sless_alt)

lemma displace_eq:
  "displace s =
     Some (if full (stack s)
           then s\<lparr>stack := (stack s)\<lparr>list := butlast (list (stack s))\<rparr>,
                  sent := sent s @ [(notify (last (list (stack s))), Some ErrStackFull)]\<rparr>
           else s)"
  by (simp add: displace_def shift_def send_def full_nonempty)

lemma rejectQueued_eq:
  "rejectQueued s =
     Some (s\<lparr>stack := (stack s)\<lparr>list := []\<rparr>,
             sent := sent s @ map (\<lambda>j. (notify j, Some ErrClosed)) (rev (list (stack s)))\<rparr>)"
proof (induction "list (stack s)" arbitrary: s rule: rev_induct)
  case Nil
  then show ?case by (subst rejectQueued.simps) (simp add: empty_def)
next
  case (snoc j js)
  let ?s1 = "send j (Some ErrClosed) (s\<lparr>stack := (stack s)\<lparr>list := js\<rparr>\<rparr>)"
  have "js = list (stack ?s1)" by (simp add: send_def)
  from snoc(1) [OF this] snoc(2) [symmetric] show ?case
    by (subst rejectQueued.simps) (simp add: empty_def shift_def send_def)
qed

lemma Req_eq:
  "run_select s (Req j) =
     Some (if closing s then s\<lparr>sent := sent s @ [(notify j, Some ErrClosed)]\<rparr>
           else if busy s <s MaxConcurrency (options s)
           then s\<lparr>busy := busy s + 1, sent := sent s @ [(notify j, None)]\<rparr>
           else if full (stack s)
           then s\<lparr>stack := (stack s)\<lparr>list := j # butlast (list (stack s))\<rparr>,
                  sent := sent s @ [(notify (last (list (stack s))), Some ErrStackFull)]\<rparr>
           else s\<lparr>stack := (stack s)\<lparr>list := j # list (stack s)\<rparr>\<rparr>)"
  by (simp add: displace_eq send_def push_def)

lemma Done_eq:
  "run_select s Done =
     Some (case list (stack s) of
             [] \<Rightarrow> (if closing s \<and> busy s - 1 = 0
                    then s\<lparr>busy := busy s - 1, hasQuit := True\<rparr>
                    else s\<lparr>busy := busy s - 1\<rparr>)
           | j # js \<Rightarrow>
               (if closing s \<and> busy s = 0 \<and> js = []
                then s\<lparr>stack := (stack s)\<lparr>list := js\<rparr>,
                       sent := sent s @ [(notify j, None)], hasQuit := True\<rparr>
                else s\<lparr>stack := (stack s)\<lparr>list := js\<rparr>,
                       sent := sent s @ [(notify j, None)]\<rparr>))"
  by (cases "list (stack s)") (simp_all add: empty_def pop_def send_def Let_def)

lemma Timeout_eq:
  "run_select s TimeoutEv =
     (if list (stack s) = [] \<or> \<not> timeout (last (list (stack s))) then None
      else Some (s\<lparr>stack := (stack s)\<lparr>list := butlast (list (stack s))\<rparr>,
                   sent := sent s @ [(notify (last (list (stack s))), Some ErrTimeout)]\<rparr>))"
  by (simp add: bottom_def shift_def send_def)

lemma StatusReq_eq: "run_select s StatusReq = Some s"
  by simp

lemma Quit_eq:
  "run_select s (Quit forced) =
     Some (if forced
           then s\<lparr>stack := (stack s)\<lparr>list := []\<rparr>,
                  sent := sent s @ map (\<lambda>j. (notify j, Some ErrClosed)) (rev (list (stack s))),
                  hasQuit := True\<rparr>
           else if busy s = 0 \<and> list (stack s) = [] then s\<lparr>closing := True, hasQuit := True\<rparr>
           else if 0 <s CloseTimeout (options s) then s\<lparr>closing := True, closeTimeout := True\<rparr>
           else s\<lparr>closing := True\<rparr>)"
  by (simp add: rejectQueued_eq empty_def Let_def)

lemma CloseTimeout_eq:
  "run_select s CloseTimeoutEv =
     (if \<not> closeTimeout s then None
      else Some (s\<lparr>stack := (stack s)\<lparr>list := []\<rparr>,
                   sent := sent s @ map (\<lambda>j. (notify j, Some ErrClosed)) (rev (list (stack s))),
                   hasQuit := True\<rparr>))"
  by (simp add: rejectQueued_eq)

declare run_select.simps [simp del]

lemmas run_select_eq = Req_eq Done_eq Timeout_eq StatusReq_eq Quit_eq CloseTimeout_eq

text \<open>
  No case of the loop panics: \<open>run_select\<close> has no result exactly when the case cannot
  fire.
\<close>

lemma run_select_ready: "run_select s e = None \<longleftrightarrow> \<not> ready s e"
  by (cases e) (auto simp: run_select_eq bottom_def)

lemma api_alive: "\<not> hasQuit s \<Longrightarrow> api s c = run_select s (event_of s c)"
  by (cases c)
     (simp_all add: Wait_def done_fn_def Status_def Close_def CloseForced_def
        option.map_comp comp_def option.map_ident)

lemma api_quit: "hasQuit s \<Longrightarrow> api s c = Some s1 \<Longrightarrow> s1 = s"
  by (cases c) (simp_all add: Wait_def done_fn_def Status_def Close_def CloseForced_def)

subsection \<open>Signed arithmetic on \<open>busy\<close>\<close>

lemma sint_succ: "(a::go_int) <s b \<Longrightarrow> sint (a + 1) = sint a + 1"
proof -
  assume "a <s b"
  then have "sint a < sint b" by (simp add: word_sless_alt)
  moreover have "sint b < 2 ^ 63" using sint_lt [of b] by simp
  moreover have "- (2 ^ 63) \<le> sint a" using sint_ge [of a] by simp
  ultimately show ?thesis
    by (simp add: sint_word_ariths signed_take_bit_int_eq_self)
qed

lemma sint_pred: "0 < sint (a::go_int) \<Longrightarrow> sint (a - 1) = sint a - 1"
proof -
  assume "0 < sint a"
  moreover have "sint a < 2 ^ 63" using sint_lt [of a] by simp
  ultimately show ?thesis
    by (simp add: sint_word_ariths signed_take_bit_int_eq_self)
qed

lemma sint_inj: "sint (a::go_int) = sint b \<Longrightarrow> a = b"
  by (rule signed_word_eqI)

subsection \<open>Invariants along the calls\<close>

lemma calls_invariant:
  assumes "calls s cs = Some s1" and "P s"
    and "\<And>s c s1. P s \<Longrightarrow> api s c = Some s1 \<Longrightarrow> P s1"
  shows "P s1"
  using assms(1,2)
proof (induction cs arbitrary: s)
  case Nil
  then show ?case by simp
next
  case (Cons c cs)
  then show ?case by (auto split: option.splits dest: assms(3))
qed

lemma api_preserves:
  assumes "api s c = Some s1" and "P s"
    and "\<And>e. run_select s e = Some s1 \<Longrightarrow> P s1"
  shows "P s1"
proof (cases "hasQuit s")
  case True
  with assms(1,2) show ?thesis by (auto dest: api_quit)
next
  case False
  with assms(1) have "run_select s (event_of s c) = Some s1" by (simp add: api_alive)
  then show ?thesis by (rule assms(3))
qed

lemma calls_append:
  "calls s (cs @ cs') = (case calls s cs of None \<Rightarrow> None | Some s1 \<Rightarrow> calls s1 cs')"
  by (induction cs arbitrary: s) (auto split: option.splits)

subsection \<open>The capacity of the buffer\<close>

lemma run_select_cap:
  "run_select s e = Some s1 \<Longrightarrow> cap (stack s1) = cap (stack s) \<and> options s1 = options s"
  by (cases e) (auto simp: run_select_eq split: if_splits list.splits)

lemma run_select_bounded:
  "run_select s e = Some s1 \<Longrightarrow> bounded s \<Longrightarrow> bounded s1"
  by (cases e)
     (auto simp: run_select_eq bounded_def full_def word_sless_alt
           split: if_splits list.splits)

lemma api_bounded:
  "api s c = Some s1 \<Longrightarrow> bounded s \<Longrightarrow> bounded s1 \<and> cap (stack s1) = cap (stack s) \<and> options s1 = options s"
  by (erule api_preserves) (auto dest: run_select_cap run_select_bounded)

lemma calls_bounded:
  assumes "calls s cs = Some s1" and "bounded s"
  shows "bounded s1 \<and> cap (stack s1) = cap (stack s) \<and> options s1 = options s"
proof -
  let ?P = "\<lambda>t. bounded t \<and> cap (stack t) = cap (stack s) \<and> options t = options s"
  have "?P s1"
    by (rule calls_invariant [OF assms(1), where P = ?P]) (use assms(2) in \<open>auto dest: api_bounded\<close>)
  then show ?thesis .
qed

lemma With_bounded: "bounded (With opts) \<and> cap (stack (With opts)) = MaxStackSize opts"
  by (auto simp: With_def bounded_def newStack_def Let_def word_sless_alt)

subsection \<open>Slots and closing\<close>

lemma run_select_slots:
  "run_select s e = Some s1 \<Longrightarrow> \<not> hasQuit s \<Longrightarrow> slots s \<Longrightarrow> slots s1"
  by (cases e)
     (auto simp: run_select_eq slots_def word_sless_alt
           split: if_splits list.splits)

lemma api_slots: "api s c = Some s1 \<Longrightarrow> slots s \<Longrightarrow> slots s1"
  by (cases "hasQuit s") (auto dest: api_quit run_select_slots simp: api_alive)

lemma With_slots: "slots (With opts)"
  by (auto simp: With_def slots_def newStack_def Let_def word_sless_alt word_sle_eq)

lemma calls_slots: "calls (With opts) cs = Some s \<Longrightarrow> slots s"
  by (erule calls_invariant [where P = slots]) (auto simp: With_slots dest: api_slots)

lemma api_drained:
  assumes "api s c = Some s1" and "drained s" and "c \<noteq> CallCloseForced" and "c \<noteq> TimerCloseTimeout"
  shows "drained s1"
proof (cases "hasQuit s")
  case True
  with assms(1) have "s1 = s" by (rule api_quit [rotated])
  with assms(2) show ?thesis by simp
next
  case False
  with assms(1) have "run_select s (event_of s c) = Some s1" by (simp add: api_alive)
  with False assms(3,4) show ?thesis
    by (cases c) (auto simp: run_select_eq drained_def split: if_splits list.splits)
qed

lemma calls_drained:
  "calls s cs = Some s1 \<Longrightarrow> drained s \<Longrightarrow> graceful cs \<Longrightarrow> drained s1"
proof (induction cs arbitrary: s)
  case Nil
  then show ?case by simp
next
  case (Cons c cs)
  then show ?case
    by (cases c) (auto split: option.splits dest: api_drained simp del: api.simps)
qed

lemma With_drained: "drained (With opts)"
  by (simp add: With_def drained_def Let_def)

lemma api_closing: "api s c = Some s1 \<Longrightarrow> closing s \<Longrightarrow> closing s1"
  by (erule api_preserves, assumption, case_tac e)
     (auto simp: run_select_eq split: if_splits list.splits)

lemma calls_closing: "calls s cs = Some s1 \<Longrightarrow> closing s \<Longrightarrow> closing s1"
  by (erule calls_invariant [where P = closing]) (auto dest: api_closing)

lemma Wait_closing:
  "closing s \<Longrightarrow>
   Wait s c = Some (if hasQuit s then (Returns ErrClosed, s)
                    else (Receives, s\<lparr>sent := sent s @ [(c, Some ErrClosed)]\<rparr>))"
  by (simp add: Wait_def Req_eq newJob_def)

lemma quits_at:
  assumes "slots t" and "closing t" and "\<not> hasQuit t" and "api t c = Some t1" and "hasQuit t1"
  shows "c = CallDone \<or> c = CallCloseForced \<or> c = TimerCloseTimeout"
proof -
  from assms(3,4) have "run_select t (event_of t c) = Some t1" by (simp add: api_alive)
  with assms(1,2,3,5) show ?thesis
    by (cases c) (auto simp: run_select_eq slots_def split: if_splits)
qed

subsection \<open>Accounting of the running jobs\<close>

lemma run_select_accounted:
  assumes "run_select s e = Some s1" and "\<not> hasQuit s" and "accounted r s"
    and "e = Done \<Longrightarrow> r < admitted s"
  shows "accounted (if e = Done then Suc r else r) s1"
proof (cases e)
  case (Req j)
  with assms show ?thesis
    by (auto simp: run_select_eq accounted_def admitted_def word_sless_alt sint_succ
             split: if_splits intro: sint_inj)
next
  case Done
  with assms have pos: "0 < sint (busy s)" by (simp add: accounted_def)
  from Done assms pos show ?thesis
    by (auto simp: run_select_eq accounted_def admitted_def sint_pred
             split: if_splits list.splits)
next
  case TimeoutEv
  with assms show ?thesis
    by (auto simp: run_select_eq accounted_def admitted_def filter_map comp_def
             split: if_splits)
next
  case StatusReq
  with assms show ?thesis by (auto simp: run_select_eq)
next
  case (Quit forced)
  with assms show ?thesis
    by (auto simp: run_select_eq accounted_def admitted_def filter_map comp_def
             split: if_splits)
next
  case CloseTimeoutEv
  with assms show ?thesis
    by (auto simp: run_select_eq accounted_def admitted_def filter_map comp_def
             split: if_splits)
qed

lemma api_accounted:
  assumes "api s c = Some s1" and "accounted r s" and "c = CallDone \<Longrightarrow> r < admitted s"
  shows "accounted (if c = CallDone then Suc r else r) s1"
proof (cases "hasQuit s")
  case True
  with assms(1) have "s1 = s" by (rule api_quit [rotated])
  with True assms(2) show ?thesis by (simp add: accounted_def)
next
  case False
  have ev: "event_of s c = Done \<longleftrightarrow> c = CallDone" by (cases c) simp_all
  from False assms(1) have "run_select s (event_of s c) = Some s1" by (simp add: api_alive)
  from run_select_accounted [OF this False assms(2)] assms(3) ev show ?thesis by simp
qed

lemma calls_accounted:
  "calls s cs = Some s1 \<Longrightarrow> accounted r s \<Longrightarrow> released_once r s cs \<Longrightarrow> \<exists>r1. accounted r1 s1"
proof (induction cs arbitrary: s r)
  case Nil
  then show ?case by auto
next
  case (Cons c cs)
  from Cons.prems(1) obtain s2 where a: "api s c = Some s2" and b: "calls s2 cs = Some s1"
    by (auto split: option.splits)
  from Cons.prems(3) a have c: "c = CallDone \<Longrightarrow> r < admitted s"
    and d: "released_once (if c = CallDone then Suc r else r) s2 cs"
    by (auto split: if_splits)
  from api_accounted [OF a Cons.prems(2) c] have "accounted (if c = CallDone then Suc r else r) s2" .
  from Cons.IH [OF b this d] show ?case .
qed

lemma With_accounted: "accounted 0 (With opts)"
  by (auto simp: With_def accounted_def admitted_def newStack_def Let_def word_sle_eq)

subsection \<open>What is sent to a job\<close>

lemma sends_all:
  "distinct (map notify js) \<Longrightarrow>
   length (filter (\<lambda>j. notify j = c) (rev js)) = (if c \<in> notify ` set js then 1 else 0)"
  by (induction js) auto

lemma delivered_Req:
  assumes "run_select s (Req j) = Some s1" and "delivered A c s" and "notify j \<notin> A"
    and "\<not> hasQuit s"
  shows "delivered (insert (notify j) A) c s1"
proof -
  from assms(2) have d: "distinct (map notify (list (stack s)))"
    and sub: "notify ` set (list (stack s)) \<subseteq> A"
    and cnt: "length (filter (\<lambda>p. fst p = c) (sent s)) =
                (if c \<in> A \<and> c \<notin> notify ` set (list (stack s)) then 1 else 0)"
    by (simp_all add: delivered_def sends_def)
  from sub assms(3) have fresh: "notify j \<notin> notify ` set (list (stack s))" by blast
  from cnt assms(3) have zero: "c = notify j \<Longrightarrow> filter (\<lambda>p. fst p = c) (sent s) = []"
    by simp
  consider (closing) "closing s"
    | (admit) "\<not> closing s" "busy s <s MaxConcurrency (options s)"
    | (full) "\<not> closing s" "\<not> busy s <s MaxConcurrency (options s)" "full (stack s)"
    | (push) "\<not> closing s" "\<not> busy s <s MaxConcurrency (options s)" "\<not> full (stack s)"
    by blast
  then show ?thesis
  proof cases
    case closing
    with assms(1) have "s1 = s\<lparr>sent := sent s @ [(notify j, Some ErrClosed)]\<rparr>"
      by (simp add: Req_eq)
    with d sub cnt fresh zero assms(4) show ?thesis
      by (cases "c = notify j") (auto simp: delivered_def sends_def)
  next
    case admit
    with assms(1) have "s1 = s\<lparr>busy := busy s + 1, sent := sent s @ [(notify j, None)]\<rparr>"
      by (simp add: Req_eq)
    with d sub cnt fresh zero assms(4) show ?thesis
      by (cases "c = notify j") (auto simp: delivered_def sends_def)
  next
    case full
    then obtain js l where l: "list (stack s) = js @ [l]"
      by (cases "list (stack s)" rule: rev_cases) (auto dest: full_nonempty)
    with full assms(1) have s1: "s1 = s\<lparr>stack := (stack s)\<lparr>list := j # js\<rparr>,
        sent := sent s @ [(notify l, Some ErrStackFull)]\<rparr>"
      by (simp add: Req_eq)
    from l sub have lA: "notify l \<in> A" by auto
    with assms(3) have ne: "notify l \<noteq> notify j" by auto
    from s1 l d sub cnt fresh zero assms(4) lA ne show ?thesis
      by (cases "c = notify j"; cases "c = notify l") (auto simp: delivered_def sends_def)
  next
    case push
    with assms(1) have "s1 = s\<lparr>stack := (stack s)\<lparr>list := j # list (stack s)\<rparr>\<rparr>"
      by (simp add: Req_eq)
    with d sub cnt fresh zero assms(4) show ?thesis
      by (cases "c = notify j") (auto simp: delivered_def sends_def)
  qed
qed

lemma delivered_Done:
  assumes "run_select s Done = Some s1" and "delivered A c s"
  shows "delivered A c s1"
  using assms
  by (cases "list (stack s)")
     (auto simp: run_select_eq delivered_def sends_def split: if_splits)

lemma delivered_Timeout:
  assumes "run_select s TimeoutEv = Some s1" and "delivered A c s"
  shows "delivered A c s1"
proof (cases "list (stack s)" rule: rev_cases)
  case Nil
  with assms show ?thesis by (simp add: run_select_eq)
next
  case (snoc js l)
  with assms show ?thesis
    by (auto simp: run_select_eq delivered_def sends_def split: if_splits)
qed

lemma delivered_reject:
  assumes "delivered A c s"
  shows "delivered A c (s\<lparr>stack := (stack s)\<lparr>list := []\<rparr>,
            sent := sent s @ map (\<lambda>j. (notify j, Some ErrClosed)) (rev (list (stack s))),
            hasQuit := True\<rparr>)"
  using assms by (auto simp: delivered_def sends_def comp_def sends_all)

lemma delivered_run_select:
  assumes "run_select s e = Some s1" and "delivered A c s" and "\<not> hasQuit s"
    and "\<And>j. e = Req j \<Longrightarrow> notify j \<notin> A"
  shows "delivered (case e of Req j \<Rightarrow> insert (notify j) A | _ \<Rightarrow> A) c s1"
proof (cases e)
  case (Req j)
  with assms show ?thesis by (auto dest: delivered_Req)
next
  case Done
  with assms show ?thesis by (auto dest: delivered_Done)
next
  case TimeoutEv
  with assms show ?thesis by (auto dest: delivered_Timeout)
next
  case StatusReq
  with assms show ?thesis by (simp add: run_select_eq)
next
  case (Quit forced)
  show ?thesis
  proof (cases forced)
    case True
    with Quit assms(1) delivered_reject [OF assms(2)] show ?thesis
      by (simp add: run_select_eq)
  next
    case False
    with Quit assms(1,2) show ?thesis
      by (auto simp: run_select_eq delivered_def sends_def split: if_splits)
  qed
next
  case CloseTimeoutEv
  with assms(1) delivered_reject [OF assms(2)] show ?thesis
    by (simp add: run_select_eq split: if_splits)
qed

lemma created_Cons: "created (c # cs) = created [c] @ created cs"
  by (cases c) simp_all

lemma created_append: "created (cs @ cs') = created cs @ created cs'"
  by (induction cs rule: created.induct) simp_all

lemma arrivals_created: "set (arrivals s cs) \<subseteq> set (created cs)"
proof (induction cs arbitrary: s)
  case Nil
  show ?case by simp
next
  case (Cons c cs)
  show ?case
  proof (cases "api s c")
    case None
    then show ?thesis by simp
  next
    case (Some s2)
    with Cons [of s2] show ?thesis
      by (cases c) (auto simp del: api.simps)
  qed
qed

lemma arrivals_Cons:
  "api s c = Some s2 \<Longrightarrow> arrivals s (c # cs) = arrivals s [c] @ arrivals s2 cs"
  by (cases c) (simp_all del: api.simps)

lemma api_delivered:
  assumes "api s c = Some s1" and "delivered A ch s" and "set (created [c]) \<inter> A = {}"
  shows "delivered (A \<union> set (arrivals s [c])) ch s1"
proof (cases "hasQuit s")
  case True
  with assms(1) have "s1 = s" by (rule api_quit [rotated])
  with True assms(1,2) show ?thesis
    by (cases c) (simp_all del: api.simps)
next
  case False
  with assms(1) have r: "run_select s (event_of s c) = Some s1" by (simp add: api_alive)
  have fresh: "\<And>j. event_of s c = Req j \<Longrightarrow> notify j \<notin> A"
    using assms(3) by (cases c) (auto simp: newJob_def)
  from delivered_run_select [OF r assms(2) False fresh]
  have "delivered (case event_of s c of Req j \<Rightarrow> insert (notify j) A | _ \<Rightarrow> A) ch s1" .
  moreover have "(case event_of s c of Req j \<Rightarrow> insert (notify j) A | _ \<Rightarrow> A)
                   = A \<union> set (arrivals s [c])"
    using False assms(1) by (cases c) (simp_all add: newJob_def del: api.simps)
  ultimately show ?thesis by simp
qed

lemma calls_delivered:
  "calls s cs = Some s1 \<Longrightarrow> delivered A ch s \<Longrightarrow> distinct (created cs) \<Longrightarrow>
   set (created cs) \<inter> A = {} \<Longrightarrow> delivered (A \<union> set (arrivals s cs)) ch s1"
proof (induction cs arbitrary: s A)
  case Nil
  then show ?case by simp
next
  case (Cons c cs)
  from Cons.prems(1) obtain s2 where a: "api s c = Some s2" and b: "calls s2 cs = Some s1"
    by (auto split: option.splits)
  from Cons.prems(3,4) have dc: "distinct (created cs)"
    and f1: "set (created [c]) \<inter> A = {}"
    and f2: "set (created cs) \<inter> A = {}"
    and f3: "set (created cs) \<inter> set (created [c]) = {}"
    by (auto simp: created_Cons [of c cs])
  from api_delivered [OF a Cons.prems(2) f1]
  have d2: "delivered (A \<union> set (arrivals s [c])) ch s2" .
  from f2 f3 arrivals_created [of s "[c]"]
  have "set (created cs) \<inter> (A \<union> set (arrivals s [c])) = {}" by blast
  from Cons.IH [OF b d2 dc this]
  have "delivered (A \<union> set (arrivals s [c]) \<union> set (arrivals s2 cs)) ch s1" .
  then show ?case
    by (simp only: arrivals_Cons [OF a, of cs] set_append Un_assoc)
qed

lemma With_delivered: "delivered {} ch (With opts)"
  by (simp add: delivered_def With_def newStack_def sends_def Let_def)

lemma api_sent: "api s c = Some s1 \<Longrightarrow> \<exists>xs. sent s1 = sent s @ xs"
proof (cases "hasQuit s")
  case True
  assume "api s c = Some s1"
  with True have "s1 = s" by (rule api_quit)
  then show ?thesis by simp
next
  case False
  assume "api s c = Some s1"
  with False have "run_select s (event_of s c) = Some s1" by (simp add: api_alive)
  then show ?thesis
    by (cases "event_of s c") (auto simp: run_select_eq split: if_splits list.splits)
qed

lemma calls_sent: "calls s cs = Some s1 \<Longrightarrow> \<exists>xs. sent s1 = sent s @ xs"
proof (induction cs arbitrary: s)
  case Nil
  then show ?case by simp
next
  case (Cons c cs)
  from Cons.prems obtain s2 where a: "api s c = Some s2" and b: "calls s2 cs = Some s1"
    by (auto split: option.splits)
  from api_sent [OF a] Cons.IH [OF b] show ?case by auto
qed

subsection \<open>Closed forms of \<open>admit\<close> and \<open>trim\<close>\<close>

lemma admit_eq:
  "k = min (length (list (stack s))) (nat (sint (MaxConcurrency (options s)) - sint (busy s))) \<Longrightarrow>
   admit s =
     Some (s\<lparr>busy := busy s + of_nat k,
             stack := (stack s)\<lparr>list := drop k (list (stack s))\<rparr>,
             sent := sent s @ map (\<lambda>j. (notify j, None)) (take k (list (stack s)))\<rparr>)"
proof (induction "list (stack s)" arbitrary: s k)
  case Nil
  then show ?case by (subst admit.simps) (simp add: empty_def)
next
  case (Cons j js)
  show ?case
  proof (cases "busy s <s MaxConcurrency (options s)")
    case True
    let ?s1 = "send j None (s\<lparr>busy := busy s + 1, stack := (stack s)\<lparr>list := js\<rparr>\<rparr>)"
    let ?k1 = "min (length js) (nat (sint (MaxConcurrency (options s)) - sint (busy s + 1)))"
    have l: "js = list (stack ?s1)" by (simp add: send_def)
    have k1: "?k1 = min (length (list (stack ?s1)))
                (nat (sint (MaxConcurrency (options ?s1)) - sint (busy ?s1)))"
      by (simp add: send_def)
    from True have "0 < sint (MaxConcurrency (options s)) - sint (busy s)"
      by (simp add: word_sless_alt)
    then have "nat (sint (MaxConcurrency (options s)) - sint (busy s)) =
                 Suc (nat (sint (MaxConcurrency (options s)) - sint (busy s + 1)))"
      by (simp add: sint_succ [OF True])
    with Cons.prems Cons.hyps(2) [symmetric]
    have k: "k = Suc ?k1" by simp
    have "admit s = admit ?s1"
      using True Cons.hyps(2) [symmetric]
      by (subst admit.simps) (simp add: empty_def pop_def)
    also note Cons.hyps(1) [OF l k1]
    finally show ?thesis
      using Cons.hyps(2) [symmetric] k by (simp add: send_def add.assoc)
  next
    case False
    then have "sint (MaxConcurrency (options s)) - sint (busy s) \<le> 0"
      by (simp add: word_sless_alt)
    with Cons.prems have "k = 0" by simp
    with False show ?thesis by (subst admit.simps) simp
  qed
qed

lemma trim_eq:
  "m = (if 0 <s cap (stack s) \<and> sint (cap (stack s)) < int (length (list (stack s)))
        then nat (sint (cap (stack s))) else length (list (stack s))) \<Longrightarrow>
   trim s =
     Some (s\<lparr>stack := (stack s)\<lparr>list := take m (list (stack s))\<rparr>,
             sent := sent s @ map (\<lambda>j. (notify j, Some ErrStackFull))
                                 (rev (drop m (list (stack s))))\<rparr>)"
proof (induction "list (stack s)" arbitrary: s m rule: rev_induct)
  case Nil
  then show ?case by (subst trim.simps) (auto simp: word_sless_alt)
next
  case (snoc l js)
  show ?case
  proof (cases "0 <s cap (stack s) \<and> sint (cap (stack s)) < int (length (list (stack s)))")
    case True
    let ?s1 = "send l (Some ErrStackFull) (s\<lparr>stack := (stack s)\<lparr>list := js\<rparr>\<rparr>)"
    let ?m1 = "if 0 <s cap (stack ?s1) \<and> sint (cap (stack ?s1)) < int (length (list (stack ?s1)))
               then nat (sint (cap (stack ?s1))) else length (list (stack ?s1))"
    have l: "js = list (stack ?s1)" by (simp add: send_def)
    from True snoc.prems have m: "m = nat (sint (cap (stack s)))" by simp
    from True snoc.hyps(2) [symmetric] have le: "m \<le> length js"
      by (auto simp: m word_sless_alt)
    from True snoc.hyps(2) [symmetric] le have m1: "?m1 = m"
      by (auto simp: m send_def word_sless_alt)
    have "trim s = trim ?s1"
      using True snoc.hyps(2) [symmetric]
      by (subst trim.simps) (simp add: shift_def)
    also note snoc.hyps(1) [OF l refl]
    finally show ?thesis
      using snoc.hyps(2) [symmetric] le unfolding m1 by (simp add: send_def)
  next
    case False
    with snoc.prems have "m = length (list (stack s))" by simp
    with False show ?thesis by (subst trim.simps) auto
  qed
qed

subsection \<open>The modelled \<open>Reconfigure\<close>\<close>

text \<open>
  The modelled \<open>Reconfigure\<close> is not among the calls of \<open>api\<close>, which are those the
  sources serve. It keeps the capacity bound, and it leaves no slot free while a job is
  queued.
\<close>

lemma admit_slots:
  "admit s = Some s1 \<Longrightarrow> list (stack s1) = [] \<or> \<not> busy s1 <s MaxConcurrency (options s1)"
proof (induction s rule: admit.induct)
  case (1 s)
  show ?case
  proof (cases "busy s <s MaxConcurrency (options s) \<and> \<not> empty (stack s)")
    case True
    then obtain j st where p: "pop (stack s) = Some (j, st)"
      by (cases "list (stack s)") (auto simp: pop_def empty_def)
    with True "1.prems"
    have "admit (send j None (s\<lparr>busy := busy s + 1, stack := st\<rparr>)) = Some s1"
      by (subst (asm) admit.simps) simp
    from "1.IH" [OF True p refl this] show ?thesis .
  next
    case False
    with "1.prems" have "s1 = s" by (subst (asm) admit.simps) auto
    with False show ?thesis by (auto simp: empty_def)
  qed
qed

lemma Reconfigure_slots:
  assumes "Reconfigure s opts = Some (None, s1)"
  shows "list (stack s1) = [] \<or> \<not> busy s1 <s MaxConcurrency (options s1)"
proof -
  from assms obtain s2 where "admit s2 = Some s1"
    by (auto simp: Reconfigure_def split: if_splits option.splits)
  then show ?thesis by (rule admit_slots)
qed

lemma Reconfigure_bounded:
  assumes "Reconfigure s opts = Some (None, s1)"
  shows "bounded s1"
proof -
  from assms obtain s2 where t: "trim (replace_options s opts) = Some s2"
    and a: "admit s2 = Some s1"
    by (auto simp: Reconfigure_def split: if_splits option.splits)
  from t have "bounded s2"
    by (auto simp: trim_eq [OF refl] bounded_def word_sless_alt split: if_splits)
  with a show ?thesis
    by (auto simp: admit_eq [OF refl] bounded_def)
qed

text \<open>
  The equality of \<open>busy\<close> and the limit does not survive it: from the two running and
  two queued jobs of \<open>TestReconfigure\<close>, the options of the row "decrease concurrency,
  keep stack size" leave two jobs running and two queued under a limit of 1, which is
  what the row expects.
\<close>

lemma Reconfigure_lowers_limit:
  "TestReconfigure_queue =
     Some \<lparr>options = test_options 2 2,
           stack = \<lparr>cap = 2, list = [\<lparr>notify = 3, timeout = False\<rparr>, \<lparr>notify = 2, timeout = False\<rparr>]\<rparr>,
           closing = False, busy = 2, hasQuit = False, closeTimeout = False,
           sent = [(0, None), (1, None)]\<rparr>
   \<and> Reconfigure
        \<lparr>options = test_options 2 2,
         stack = \<lparr>cap = 2, list = [\<lparr>notify = 3, timeout = False\<rparr>, \<lparr>notify = 2, timeout = False\<rparr>]\<rparr>,
         closing = False, busy = 2, hasQuit = False, closeTimeout = False,
         sent = [(0, None), (1, None)]\<rparr> (test_options 1 2) =
      Some (None,
        \<lparr>options = test_options 1 2,
         stack = \<lparr>cap = 2, list = [\<lparr>notify = 3, timeout = False\<rparr>, \<lparr>notify = 2, timeout = False\<rparr>]\<rparr>,
         closing = False, busy = 2, hasQuit = False, closeTimeout = False,
         sent = [(0, None), (1, None)]\<rparr>)"
  by code_simp

text \<open>
  Against the tables of \<open>TestReconfigure\<close>, the modelled \<open>Reconfigure\<close> gives the
  expected \<open>Status\<close> in eight of the nine rows of "apply changes" and in the two other
  subtests. In the row "increase concurrency, decrease stack size" it first drops the
  bottom job and then lets the other one run, which leaves three jobs running and none
  queued, where the row expects three running and one queued. The sources do not hold the
  code that would say what \<open>Reconfigure\<close> does there.
\<close>

lemma TestReconfigure_modelled:
  "map (TestReconfigure_passes Reconfigure) TestReconfigure_rows =
     [True, True, True, True, True, False, True, True, True]
   \<and> TestReconfigure_default Reconfigure \<and> TestReconfigure_closed Reconfigure
   \<and> TestReconfigure_rows ! 5 = (test_options 3 1, test_status 3 1)
   \<and> Reconfigure
        \<lparr>options = test_options 2 2,
         stack = \<lparr>cap = 2, list = [\<lparr>notify = 3, timeout = False\<rparr>, \<lparr>notify = 2, timeout = False\<rparr>]\<rparr>,
         closing = False, busy = 2, hasQuit = False, closeTimeout = False,
         sent = [(0, None), (1, None)]\<rparr> (test_options 3 1) =
      Some (None,
        \<lparr>options = test_options 3 1, stack = \<lparr>cap = 1, list = []\<rparr>,
         closing = False, busy = 3, hasQuit = False, closeTimeout = False,
         sent = [(0, None), (1, None), (2, Some ErrStackFull), (3, None)]\<rparr>)"
  by code_simp

section \<open>The claims\<close>

text \<open>
  Claim C1. The arrival case applies exactly one of four branches, tested in this order:
  when the controller is closing, \<open>ErrClosed\<close> is sent to the arriving job and the buffer
  is left alone; else when \<open>busy\<close> is below \<open>MaxConcurrency\<close>, \<open>busy\<close> is incremented
  and nil is sent to the arriving job; else when the buffer is full, the job at the back of
  the list (the oldest) is removed and sent \<open>ErrStackFull\<close>, and the arriving job is put
  at the front; else the arriving job is put at the front. The case always fires and never
  panics. A loop that has returned receives no arrival: \<open>Wait\<close> then returns
  \<open>ErrClosed\<close> itself and the job is not queued; otherwise \<open>Wait\<close> hands its job over
  to the arrival case.
\<close>

theorem arrival_precedence:
  "run_select s (Req j) =
     Some (if closing s then s\<lparr>sent := sent s @ [(notify j, Some ErrClosed)]\<rparr>
           else if busy s <s MaxConcurrency (options s)
           then s\<lparr>busy := busy s + 1, sent := sent s @ [(notify j, None)]\<rparr>
           else if full (stack s)
           then s\<lparr>stack := (stack s)\<lparr>list := j # butlast (list (stack s))\<rparr>,
                  sent := sent s @ [(notify (last (list (stack s))), Some ErrStackFull)]\<rparr>
           else s\<lparr>stack := (stack s)\<lparr>list := j # list (stack s)\<rparr>\<rparr>)
   \<and> Wait s c =
       (if hasQuit s then Some (Returns ErrClosed, s)
        else map_option (\<lambda>s1. (Receives, s1)) (run_select s (Req (newJob s c))))
   \<and> notify (newJob s c) = c"
proof -
  have "Wait s c =
       (if hasQuit s then Some (Returns ErrClosed, s)
        else map_option (\<lambda>s1. (Receives, s1)) (run_select s (Req (newJob s c))))"
    by (simp add: Wait_def)
  moreover have "notify (newJob s c) = c"
    by (simp add: newJob_def)
  ultimately show ?thesis
    using Req_eq [of s j] by (simp only: simp_thms)
qed

text \<open>
  Claim C2, as the code has it. Over any calls in which every \<open>Wait\<close> creates its job on
  a new channel: a job that the loop has received has been sent exactly one value once it
  is no longer queued, and none while it is queued; every other job has been sent none;
  no job is queued once the loop has returned; and a job that has been sent a value is
  sent no further one by whatever follows, so nothing comes after nil.
\<close>

theorem one_signal:
  assumes "calls (With opts) cs = Some s" and "calls s cs' = Some s'"
    and "distinct (created (cs @ cs'))"
  shows "length (sends s c) =
           (if c \<in> set (arrivals (With opts) cs) \<and> c \<notin> notify ` set (list (stack s))
            then 1 else 0)
         \<and> (\<not> hasQuit s \<or> list (stack s) = [])
         \<and> (sends s c = [] \<or> sends s' c = sends s c)"
proof -
  from assms(3) have dc: "distinct (created cs)" by (simp add: created_append)
  from calls_delivered [OF assms(1) With_delivered dc, of c]
  have d: "delivered (set (arrivals (With opts) cs)) c s" by simp
  from assms(1,2) have "calls (With opts) (cs @ cs') = Some s'" by (simp add: calls_append)
  from calls_delivered [OF this With_delivered assms(3), of c]
  have d': "delivered (set (arrivals (With opts) (cs @ cs'))) c s'" by simp
  from calls_sent [OF assms(2)] obtain xs where "sent s' = sent s @ xs" ..
  then have app: "sends s' c = sends s c @ map snd (filter (\<lambda>p. fst p = c) xs)"
    by (simp add: sends_def)
  from d' have "length (sends s' c) \<le> 1" by (simp add: delivered_def)
  with app have "sends s c = [] \<or> sends s' c = sends s c"
    by (cases "sends s c") auto
  with d show ?thesis by (simp add: delivered_def)
qed

theorem one_signal_witness:
  "calls (With ex_opts) [CallWait 0, CallWait 1, CallWait 2, CallWait 3] = Some ex_full
   \<and> calls ex_full [CallDone, TimerTimeout, CallClose, CallDone, CallDone, CallWait 5] =
       Some ex_quit
   \<and> sends ex_full 0 = [None] \<and> sends ex_full 1 = [Some ErrStackFull] \<and> sends ex_full 2 = []
   \<and> sends ex_quit 0 = sends ex_full 0 \<and> sends ex_quit 1 = sends ex_full 1
   \<and> sends ex_quit 2 = [Some ErrTimeout] \<and> sends ex_quit 3 = [None] \<and> sends ex_quit 5 = []
   \<and> hasQuit ex_quit \<and> list (stack ex_quit) = []"
proof -
  let ?cs = "[CallWait 0, CallWait 1, CallWait 2, CallWait 3]"
  let ?cs' = "[CallDone, TimerTimeout, CallClose, CallDone, CallDone, CallWait 5]"
  have h1: "calls (With ex_opts) ?cs = Some ex_full" by code_simp
  have h2: "calls ex_full ?cs' = Some ex_quit" by code_simp
  have h3: "distinct (created (?cs @ ?cs'))" by simp
  have h4: "calls (With ex_opts) (?cs @ ?cs') = Some ex_quit" by code_simp
  have h5: "calls ex_quit [] = Some ex_quit" by simp
  have h6: "distinct (created ((?cs @ ?cs') @ []))" by simp
  have e: "sends ex_full 0 = [None]" "sends ex_full 1 = [Some ErrStackFull]" "sends ex_full 2 = []"
    "sends ex_quit 2 = [Some ErrTimeout]" "sends ex_quit 3 = [None]" "sends ex_quit 5 = []"
    "hasQuit ex_quit"
    by (simp_all add: sends_def ex_full_def ex_quit_def ex_state_def)
  from one_signal [OF h1 h2 h3, of 0] one_signal [OF h1 h2 h3, of 1]
    one_signal [OF h4 h5 h6, of 5] h1 h2 e
  show ?thesis by simp
qed

text \<open>
  Claim C2 as stated fails for a job created by a \<open>Wait\<close> that finds \<open>hasQuit\<close>
  closed: after \<open>New\<close> and \<open>Close\<close> the loop has returned, \<open>Wait\<close> creates the job
  of channel 0 and returns \<open>ErrClosed\<close> itself, and nothing is ever sent on the channel.
\<close>

theorem acquire_after_quit_counterexample:
  "calls New [CallClose, CallWait 0] = Some (New\<lparr>closing := True, hasQuit := True\<rparr>)
   \<and> created [CallClose, CallWait 0] = [0]
   \<and> Wait (New\<lparr>closing := True, hasQuit := True\<rparr>) 0
        = Some (Returns ErrClosed, New\<lparr>closing := True, hasQuit := True\<rparr>)
   \<and> sends (New\<lparr>closing := True, hasQuit := True\<rparr>) 0 = []"
  by code_simp

text \<open>
  Claim C3. The buffer is last-in-first-out: \<open>pop\<close> after \<open>push\<close> returns the job just
  pushed and the stack as it was; \<open>bottom\<close> and \<open>shift\<close> return the job at the back of
  the list, which stays the bottom when a newer job is pushed; and when a completion
  arrives while two jobs pushed one after the other are at the front, the one pushed last
  is let run and the one pushed before it stays queued.
\<close>

theorem buffer_lifo:
  "pop (push st j) = Some (j, st)
   \<and> bottom (st\<lparr>list := js @ [oldest]\<rparr>) = Some oldest
   \<and> shift (st\<lparr>list := js @ [oldest]\<rparr>) = Some (oldest, st\<lparr>list := js\<rparr>)
   \<and> bottom (push (st\<lparr>list := js @ [oldest]\<rparr>) j) = Some oldest
   \<and> run_select (s\<lparr>stack := push (push st older) newer\<rparr>) Done =
       Some (s\<lparr>stack := push st older, sent := sent s @ [(notify newer, None)]\<rparr>)"
  by (simp add: Done_eq pop_def push_def bottom_def shift_def)

text \<open>
  Claim C4. With a positive \<open>MaxStackSize\<close>, the buffer of every state reached from
  \<open>With\<close> holds at most \<open>MaxStackSize\<close> jobs, and the capacity stays \<open>MaxStackSize\<close>;
  every call and timer keeps the bound; in the arrival case, the state between the
  displacement and the push has room for one job when the capacity is positive, so the
  push keeps the bound; the displaced job of a full buffer is the bottom one, sent
  \<open>ErrStackFull\<close>; and an arrival that is queued pushes onto the displaced state.
\<close>

theorem buffer_bound:
  "(calls (With opts) cs = Some t \<longrightarrow> 0 <s MaxStackSize opts \<longrightarrow>
      int (length (list (stack t))) \<le> sint (MaxStackSize opts)
      \<and> MaxStackSize (options t) = MaxStackSize opts \<and> cap (stack t) = MaxStackSize opts)
   \<and> (bounded s \<longrightarrow> api s c = Some s1 \<longrightarrow> bounded s1 \<and> cap (stack s1) = cap (stack s))
   \<and> (bounded s \<longrightarrow> displace s = Some s2 \<longrightarrow>
        bounded s2
        \<and> (0 <s cap (stack s) \<longrightarrow> int (length (list (stack s2))) < sint (cap (stack s2)))
        \<and> bounded (s2\<lparr>stack := push (stack s2) j\<rparr>))
   \<and> (full (stack s) \<longrightarrow>
        displace s = Some (s\<lparr>stack := (stack s)\<lparr>list := butlast (list (stack s))\<rparr>,
                            sent := sent s @ [(notify (last (list (stack s))), Some ErrStackFull)]\<rparr>)
        \<and> bottom (stack s) = Some (last (list (stack s))))
   \<and> (\<not> closing s \<longrightarrow> \<not> busy s <s MaxConcurrency (options s) \<longrightarrow>
        run_select s (Req j) =
          (case displace s of None \<Rightarrow> None | Some s2 \<Rightarrow> Some (s2\<lparr>stack := push (stack s2) j\<rparr>)))"
proof -
  have a: "calls (With opts) cs = Some t \<Longrightarrow> 
      bounded t \<and> cap (stack t) = MaxStackSize opts \<and> MaxStackSize (options t) = MaxStackSize opts"
    using calls_bounded [of "With opts" cs t] With_bounded [of opts]
    by (auto simp: With_def Let_def)
  have b: "bounded s \<Longrightarrow> displace s = Some s2 \<Longrightarrow>
        bounded s2
        \<and> (0 <s cap (stack s) \<longrightarrow> int (length (list (stack s2))) < sint (cap (stack s2)))
        \<and> bounded (s2\<lparr>stack := push (stack s2) j\<rparr>)"
    by (auto simp: displace_eq bounded_def full_def push_def word_sless_alt split: if_splits)
  have c: "\<not> closing s \<Longrightarrow> \<not> busy s <s MaxConcurrency (options s) \<Longrightarrow>
        run_select s (Req j) =
          (case displace s of None \<Rightarrow> None | Some s2 \<Rightarrow> Some (s2\<lparr>stack := push (stack s2) j\<rparr>))"
    by (simp add: run_select.simps)
  have d: "full (stack s) \<Longrightarrow> bottom (stack s) = Some (last (list (stack s)))"
    by (auto simp: bottom_def dest: full_nonempty)
  show ?thesis
    using a b c d by (auto simp: bounded_def dest: api_bounded simp: displace_eq)
qed

theorem buffer_bound_witness:
  "calls (With ex_opts) [CallWait 0, CallWait 1, CallWait 2, CallWait 3] = Some ex_full
   \<and> 0 <s MaxStackSize ex_opts
   \<and> int (length (list (stack ex_full))) \<le> sint (MaxStackSize ex_opts)
   \<and> bounded ex_full \<and> full (stack ex_full)
   \<and> displace ex_full =
       Some (ex_state [ex_job 3] False 1 False False
               [(0, None), (1, Some ErrStackFull), (2, Some ErrStackFull)])
   \<and> int (length (list (stack (ex_state [ex_job 3] False 1 False False
               [(0, None), (1, Some ErrStackFull), (2, Some ErrStackFull)])))) < 2
   \<and> api ex_full (CallWait 4) =
       Some (ex_state [ex_job 4, ex_job 3] False 1 False False
               [(0, None), (1, Some ErrStackFull), (2, Some ErrStackFull)])
   \<and> bounded (ex_state [ex_job 4, ex_job 3] False 1 False False
               [(0, None), (1, Some ErrStackFull), (2, Some ErrStackFull)])"
proof -
  let ?s2 = "ex_state [ex_job 3] False 1 False False
               [(0, None), (1, Some ErrStackFull), (2, Some ErrStackFull)]"
  let ?s1 = "ex_state [ex_job 4, ex_job 3] False 1 False False
               [(0, None), (1, Some ErrStackFull), (2, Some ErrStackFull)]"
  have h1: "calls (With ex_opts) [CallWait 0, CallWait 1, CallWait 2, CallWait 3] = Some ex_full"
    by code_simp
  have h2: "0 <s MaxStackSize ex_opts" by code_simp
  have h3: "bounded ex_full" by code_simp
  have h4: "api ex_full (CallWait 4) = Some ?s1" by code_simp
  have h5: "displace ex_full = Some ?s2" by code_simp
  have h6: "full (stack ex_full)" by code_simp
  have h7: "int (length (list (stack ?s2))) < 2" by (simp add: ex_state_def)
  from buffer_bound [of ex_opts "[CallWait 0, CallWait 1, CallWait 2, CallWait 3]" ex_full
      ex_full "CallWait 4" ?s1 ?s2 "ex_job 4"] h1 h2 h3 h4 h5 h6 h7
  show ?thesis by simp
qed

text \<open>
  Claim C6. The close case sets \<open>closing\<close>, quits at once when no job runs and none is
  queued, and otherwise arms the grace timer when \<open>CloseTimeout\<close> is positive. A closing
  controller answers every \<open>Wait\<close> with \<open>ErrClosed\<close> and stays closing. A reached state
  that is closing with no job running or queued has quit; without a forced close or the
  grace timer, a state that has quit is closing with no job running or queued; and a
  closing controller quits only at a completion, a forced close or the grace timer. When
  the armed grace timer fires, every queued job is sent \<open>ErrClosed\<close>, oldest first, and
  the controller quits with \<open>busy\<close> as it is.
\<close>

theorem graceful_close:
  "run_select s (Quit False) =
       Some (if busy s = 0 \<and> list (stack s) = [] then s\<lparr>closing := True, hasQuit := True\<rparr>
             else if 0 <s CloseTimeout (options s) then s\<lparr>closing := True, closeTimeout := True\<rparr>
             else s\<lparr>closing := True\<rparr>)
   \<and> (closing s \<longrightarrow>
        Wait s c = Some (if hasQuit s then (Returns ErrClosed, s)
                         else (Receives, s\<lparr>sent := sent s @ [(c, Some ErrClosed)]\<rparr>)))
   \<and> (closing s \<longrightarrow> calls s cs = Some s1 \<longrightarrow> closing s1)
   \<and> (calls (With opts) ds = Some t \<longrightarrow> closing t \<longrightarrow> busy t = 0 \<longrightarrow> list (stack t) = []
        \<longrightarrow> hasQuit t)
   \<and> (calls (With opts) ds = Some t \<longrightarrow> graceful ds \<longrightarrow> hasQuit t
        \<longrightarrow> closing t \<and> busy t = 0 \<and> list (stack t) = [])
   \<and> (calls (With opts) es = Some u \<longrightarrow> closing u \<longrightarrow> \<not> hasQuit u \<longrightarrow> api u d = Some u1
        \<longrightarrow> hasQuit u1 \<longrightarrow> d = CallDone \<or> d = CallCloseForced \<or> d = TimerCloseTimeout)
   \<and> (closeTimeout s \<longrightarrow>
        run_select s CloseTimeoutEv =
          Some (s\<lparr>stack := (stack s)\<lparr>list := []\<rparr>,
                  sent := sent s @ map (\<lambda>j. (notify j, Some ErrClosed)) (rev (list (stack s))),
                  hasQuit := True\<rparr>))"
proof -
  have p1: "run_select s (Quit False) =
       Some (if busy s = 0 \<and> list (stack s) = [] then s\<lparr>closing := True, hasQuit := True\<rparr>
             else if 0 <s CloseTimeout (options s) then s\<lparr>closing := True, closeTimeout := True\<rparr>
             else s\<lparr>closing := True\<rparr>)"
    by (simp add: Quit_eq)
  have p2: "closeTimeout s \<Longrightarrow>
        run_select s CloseTimeoutEv =
          Some (s\<lparr>stack := (stack s)\<lparr>list := []\<rparr>,
                  sent := sent s @ map (\<lambda>j. (notify j, Some ErrClosed)) (rev (list (stack s))),
                  hasQuit := True\<rparr>)"
    by (simp add: CloseTimeout_eq)
  have p3: "calls (With opts) ds = Some t \<Longrightarrow> closing t \<and> busy t = 0 \<and> list (stack t) = []
              \<Longrightarrow> hasQuit t"
    using calls_slots [of opts ds t] by (auto simp: slots_def)
  have p4: "calls (With opts) ds = Some t \<Longrightarrow> graceful ds \<Longrightarrow> hasQuit t
              \<Longrightarrow> closing t \<and> busy t = 0 \<and> list (stack t) = []"
    using calls_drained [OF _ With_drained, of opts ds t] by (auto simp: drained_def)
  have p5: "calls (With opts) es = Some u \<Longrightarrow> closing u \<Longrightarrow> \<not> hasQuit u \<Longrightarrow>
              api u d = Some u1 \<Longrightarrow> hasQuit u1 \<Longrightarrow>
              d = CallDone \<or> d = CallCloseForced \<or> d = TimerCloseTimeout"
    by (rule quits_at [OF calls_slots])
  from p1 p2 p3 p4 p5 Wait_closing [of s c] calls_closing [of s cs s1]
  show ?thesis by blast
qed

theorem graceful_close_witness:
  "calls (With ex_opts) [CallWait 0, CallWait 1, CallClose] =
     Some (ex_state [ex_job 1] True 1 False True [(0, None)])
   \<and> run_select (ex_state [ex_job 1] True 1 False True [(0, None)]) (Quit False) =
       Some (ex_state [ex_job 1] True 1 False True [(0, None)])
   \<and> Wait (ex_state [ex_job 1] True 1 False True [(0, None)]) 9 =
       Some (Receives, ex_state [ex_job 1] True 1 False True [(0, None), (9, Some ErrClosed)])
   \<and> calls (ex_state [ex_job 1] True 1 False True [(0, None)]) [CallDone] =
       Some (ex_state [] True 1 False True [(0, None), (1, None)])
   \<and> api (ex_state [] True 1 False True [(0, None), (1, None)]) CallDone =
       Some (ex_state [] True 0 True True [(0, None), (1, None)])
   \<and> calls (With ex_opts) [CallWait 0, CallWait 1, CallClose, CallDone, CallDone] =
       Some (ex_state [] True 0 True True [(0, None), (1, None)])
   \<and> graceful [CallWait 0, CallWait 1, CallClose, CallDone, CallDone]
   \<and> run_select (ex_state [ex_job 1] True 1 False True [(0, None)]) CloseTimeoutEv =
       Some (ex_state [] True 1 True True [(0, None), (1, Some ErrClosed)])"
proof -
  let ?s = "ex_state [ex_job 1] True 1 False True [(0, None)]"
  let ?u = "ex_state [] True 1 False True [(0, None), (1, None)]"
  let ?t = "ex_state [] True 0 True True [(0, None), (1, None)]"
  have h1: "calls (With ex_opts) [CallWait 0, CallWait 1, CallClose] = Some ?s" by code_simp
  have h2: "calls ?s [CallDone] = Some ?u" by code_simp
  have h3: "calls (With ex_opts) [CallWait 0, CallWait 1, CallClose, CallDone] = Some ?u"
    by code_simp
  have h4: "api ?u CallDone = Some ?t" by code_simp
  have h5: "calls (With ex_opts) [CallWait 0, CallWait 1, CallClose, CallDone, CallDone] = Some ?t"
    by code_simp
  have h6: "graceful [CallWait 0, CallWait 1, CallClose, CallDone, CallDone]" by simp
  have h7: "closing ?s \<and> closeTimeout ?s \<and> \<not> hasQuit ?s \<and> busy ?s = 1 \<and> closing ?u \<and> \<not> hasQuit ?u
            \<and> hasQuit ?t \<and> closing ?t \<and> busy ?t = 0 \<and> list (stack ?t) = []"
    by (simp add: ex_state_def)
  have h8: "0 <s CloseTimeout (options ?s)" by code_simp
  from graceful_close [where s = ?s and c = 9 and cs = "[CallDone]" and ?s1.0 = ?u
      and opts = ex_opts and ds = "[CallWait 0, CallWait 1, CallClose, CallDone, CallDone]"
      and t = ?t and es = "[CallWait 0, CallWait 1, CallClose, CallDone]" and u = ?u
      and d = CallDone and ?u1.0 = ?t]
    h1 h2 h3 h4 h5 h6 h7 h8
  show ?thesis by (simp add: ex_state_def ex_job_def)
qed

text \<open>
  Claim C7. Once \<open>hasQuit\<close> is closed, \<open>Wait\<close> returns \<open>ErrClosed\<close>, \<open>Status\<close>
  returns the snapshot with only \<open>Closed\<close> set, and the \<open>done\<close> function, \<open>Close\<close> and
  \<open>CloseForced\<close> do nothing; each takes its \<open>hasQuit\<close> branch and leaves the state of
  the returned loop as it is, whatever calls follow.
\<close>

theorem after_termination:
  assumes "hasQuit s"
  shows "Wait s c = Some (Returns ErrClosed, s)
         \<and> Status s = Some (\<lparr>ActiveJobs = 0, QueuedJobs = 0, Closing = False, Closed = True\<rparr>, s)
         \<and> done_fn s = Some s \<and> Close s = Some s \<and> CloseForced s = Some s
         \<and> (calls s cs = None \<or> calls s cs = Some s)"
proof -
  have "calls s cs = None \<or> calls s cs = Some s"
  proof (cases "calls s cs")
    case None
    then show ?thesis by simp
  next
    case (Some s1)
    have "hasQuit s1 \<and> s1 = s"
      by (rule calls_invariant [OF Some, where P = "\<lambda>t. hasQuit t \<and> t = s"])
         (use assms in \<open>auto dest: api_quit\<close>)
    with Some show ?thesis by simp
  qed
  with assms show ?thesis
    by (simp add: Wait_def Status_def done_fn_def Close_def CloseForced_def)
qed

theorem after_termination_witness:
  "calls New [CallClose] = Some (New\<lparr>closing := True, hasQuit := True\<rparr>)
   \<and> hasQuit (New\<lparr>closing := True, hasQuit := True\<rparr>)
   \<and> Wait (New\<lparr>closing := True, hasQuit := True\<rparr>) 0
        = Some (Returns ErrClosed, New\<lparr>closing := True, hasQuit := True\<rparr>)
   \<and> Status (New\<lparr>closing := True, hasQuit := True\<rparr>)
        = Some (\<lparr>ActiveJobs = 0, QueuedJobs = 0, Closing = False, Closed = True\<rparr>,
                New\<lparr>closing := True, hasQuit := True\<rparr>)
   \<and> done_fn (New\<lparr>closing := True, hasQuit := True\<rparr>) = Some (New\<lparr>closing := True, hasQuit := True\<rparr>)
   \<and> calls (New\<lparr>closing := True, hasQuit := True\<rparr>) [CallWait 0, CallStatus, CallDone, CallClose]
        = Some (New\<lparr>closing := True, hasQuit := True\<rparr>)"
proof -
  let ?q = "New\<lparr>closing := True, hasQuit := True\<rparr>"
  have h0: "calls New [CallClose] = Some ?q" by code_simp
  have h1: "hasQuit ?q" by simp
  have h2: "calls ?q [CallWait 0, CallStatus, CallDone, CallClose] \<noteq> None" by code_simp
  from after_termination [OF h1, of 0 "[CallWait 0, CallStatus, CallDone, CallClose]"] h0 h2
  show ?thesis by simp
qed

text \<open>
  Claim C8. When the timer of the oldest job fires, that job is sent \<open>ErrTimeout\<close> and
  leaves the back of the list. Nothing else changes: \<open>busy\<close>, the options, the flags, the
  capacity, and the other jobs with their order are as before.
\<close>

theorem timeout_frame:
  assumes "list (stack s) = js @ [oldest]" and "timeout oldest"
  shows "run_select s TimeoutEv =
           Some (s\<lparr>stack := (stack s)\<lparr>list := js\<rparr>,
                   sent := sent s @ [(notify oldest, Some ErrTimeout)]\<rparr>)"
  using assms by (simp add: Timeout_eq)

theorem timeout_frame_witness:
  "list (stack ex_full) = [ex_job 3] @ [ex_job 2] \<and> timeout (ex_job 2)
   \<and> run_select ex_full TimeoutEv =
       Some (ex_state [ex_job 3] False 1 False False
               [(0, None), (1, Some ErrStackFull), (2, Some ErrTimeout)])"
proof -
  have h1: "list (stack ex_full) = [ex_job 3] @ [ex_job 2]"
    by (simp add: ex_full_def ex_state_def)
  have h2: "timeout (ex_job 2)" by (simp add: ex_job_def)
  from timeout_frame [OF h1 h2] h1 h2 show ?thesis
    by (simp add: ex_full_def ex_state_def ex_job_def)
qed

text \<open>
  Claim C9. In every state reached from \<open>With\<close> by calls in which each \<open>done\<close>
  function is called at most once, a non-empty buffer means that \<open>busy\<close> equals
  \<open>MaxConcurrency\<close>.
\<close>

theorem no_free_slot:
  assumes "calls (With opts) cs = Some s" and "released_once 0 (With opts) cs"
    and "list (stack s) \<noteq> []"
  shows "busy s = MaxConcurrency (options s)"
proof -
  from calls_accounted [OF assms(1) With_accounted assms(2)]
  obtain r where "accounted r s" ..
  with assms(3) show ?thesis by (simp add: accounted_def)
qed

theorem no_free_slot_witness:
  "calls (With ex_opts) [CallWait 0, CallWait 1, CallWait 2, CallDone, CallWait 3] =
     Some (ex_state [ex_job 3, ex_job 1] False 1 False False [(0, None), (2, None)])
   \<and> released_once 0 (With ex_opts) [CallWait 0, CallWait 1, CallWait 2, CallDone, CallWait 3]
   \<and> busy (ex_state [ex_job 3, ex_job 1] False 1 False False [(0, None), (2, None)]) = 1
   \<and> MaxConcurrency (options (ex_state [ex_job 3, ex_job 1] False 1 False False [(0, None), (2, None)])) = 1"
proof -
  let ?cs = "[CallWait 0, CallWait 1, CallWait 2, CallDone, CallWait 3]"
  let ?s = "ex_state [ex_job 3, ex_job 1] False 1 False False [(0, None), (2, None)]"
  have h1: "calls (With ex_opts) ?cs = Some ?s" by code_simp
  have h2: "released_once 0 (With ex_opts) ?cs" by code_simp
  have h3: "list (stack ?s) \<noteq> []" by (simp add: ex_state_def)
  have h4: "MaxConcurrency (options ?s) = 1" by (simp add: ex_state_def ex_opts_def)
  from no_free_slot [OF h1 h2 h3] h1 h2 h4 show ?thesis by simp
qed

text \<open>
  Claim C10. \<open>ServeHTTP\<close> runs the wrapped handler through \<open>Do\<close>, which runs it only
  when \<open>Wait\<close> returns nil. On \<open>ErrStackFull\<close> it writes \<open>StackFullStatusCode\<close> and
  on \<open>ErrTimeout\<close> \<open>TimeoutStatusCode\<close>, each replaced by 503 when configured as 0; on
  success the response is what the wrapped handler makes of it, and that is 404 when
  \<open>NewHandler\<close> was given no handler. The handler's controller is \<open>With\<close> of the
  common options.
\<close>

theorem handler_status:
  "ServeHTTP (NewHandler opts h) (Some ErrStackFull) w r =
     WriteHeader w (if StackFullStatusCode opts = 0 then 503 else StackFullStatusCode opts)
   \<and> ServeHTTP (NewHandler opts h) (Some ErrTimeout) w r =
     WriteHeader w (if TimeoutStatusCode opts = 0 then 503 else TimeoutStatusCode opts)
   \<and> ServeHTTP (NewHandler opts (Some f)) None w r = f w r
   \<and> ServeHTTP (NewHandler opts None) None w r = WriteHeader w 404
   \<and> Do None job w = (None, job w) \<and> Do (Some e) job w = (Some e, w)
   \<and> hstack (NewHandler opts h) = With (Options.truncate opts)"
  by (simp add: ServeHTTP_def NewHandler_def Do_def nop404_def StatusNotFound_def
        StatusServiceUnavailable_def Let_def)

end
